theory Spec2Isabelle
  imports Main "HOL-Library.Multiset"
begin

section \<open>Calendar time analysis: data model\<close>

text \<open>
  The script \<^verbatim>\<open>calendar-time-analysis.py\<close> reads the VEVENT components of an iCalendar
  file, expands recurring events, reconciles the generated instants with the override
  components (those carrying a RECURRENCE-ID) and sums durations per category.

  Timestamps. A Python aware \<^verbatim>\<open>datetime\<close> is a wall-clock reading together with a
  \<^verbatim>\<open>tzinfo\<close>. The model keeps the wall clock as seconds since the epoch and the
  \<^verbatim>\<open>tzinfo\<close> as a fixed UTC offset in seconds (the calendar's resolution is the second;
  a \<^verbatim>\<open>pytz\<close> tzinfo attached to a datetime carries one fixed offset). A \<^verbatim>\<open>date\<close> is
  its day number, a \<^verbatim>\<open>timedelta\<close> a number of seconds; both are unbounded integers.
\<close>

type_synonym date = int
type_synonym timedelta = int

record datetime =
  wall :: int
  utcoff :: int

text \<open>\<^verbatim>\<open>dt.date()\<close>: the date of the wall clock, in the datetime's own zone.\<close>

definition date_of :: "datetime \<Rightarrow> date" where
  "date_of d = wall d div 86400"

text \<open>\<^verbatim>\<open>dt.astimezone(pytz.timezone('UTC'))\<close>: the same instant, read in UTC.\<close>

definition astimezone_utc :: "datetime \<Rightarrow> datetime" where
  "astimezone_utc d = \<lparr>wall = wall d - utcoff d, utcoff = 0\<rparr>"

text \<open>\<^verbatim>\<open>a == b\<close> on aware datetimes compares the instants, not the wall clocks.\<close>

definition dt_eq :: "datetime \<Rightarrow> datetime \<Rightarrow> bool" where
  "dt_eq a b = (wall a - utcoff a = wall b - utcoff b)"

text \<open>\<^verbatim>\<open>a - b\<close> on aware datetimes: the span between the two instants.\<close>

definition dt_sub :: "datetime \<Rightarrow> datetime \<Rightarrow> timedelta" where
  "dt_sub a b = (wall a - utcoff a) - (wall b - utcoff b)"

text \<open>\<^verbatim>\<open>dt.replace(tzinfo = tz)\<close>: the wall clock is kept, the zone is overwritten.\<close>

definition replace_tzinfo :: "datetime \<Rightarrow> int \<Rightarrow> datetime" where
  "replace_tzinfo d tz = d\<lparr>utcoff := tz\<rparr>"

text \<open>
  The \<^verbatim>\<open>.dt\<close> of a DTSTART property is a \<^verbatim>\<open>date\<close> (an all-day event) or a
  \<^verbatim>\<open>datetime\<close>; the script tests for the difference (line 117).
\<close>

datatype dtval = Date date | DateTime datetime

text \<open>
  A VEVENT component, with the properties the script reads. SUMMARY and RRULE may be
  absent (\<^verbatim>\<open>component.get\<close> gives \<^verbatim>\<open>None\<close>), RECURRENCE-ID is present exactly on
  override components, EXDATE holds the \<^verbatim>\<open>dts\<close> of one EXDATE property (empty when
  the property is absent). UID, DTSTART and DTEND are always present, and DTEND,
  RECURRENCE-ID and the exclusion dates are datetimes.
\<close>

record vevent =
  UID :: string
  SUMMARY :: "string option"
  DTSTART :: dtval
  DTEND :: datetime
  RECURRENCE_ID :: "datetime option"
  RRULE :: "string option"
  EXDATE :: "datetime list"

text \<open>
  Class \<^verbatim>\<open>Event\<close> (lines 60-68). The fields \<^verbatim>\<open>year\<close> and \<^verbatim>\<open>week\<close> are computed
  from \<^verbatim>\<open>dtstart.isocalendar()\<close> and never read again; they are left out.
\<close>

record Event =
  ev_dtstart :: datetime
  ev_duration :: timedelta
  ev_summary :: string
  ev_category :: string

text \<open>
  What the script is run with: the window \<^verbatim>\<open>args.dstart\<close>, \<^verbatim>\<open>args.dend\<close>; the
  compiled \<^verbatim>\<open>category_pattern\<close>, as the function from a title to \<^verbatim>\<open>m[0]\<close> of
  \<^verbatim>\<open>category_pattern.match(title)\<close> (\<open>None\<close> when there is no match); and the library
  function \<^verbatim>\<open>rrulestr\<close> of dateutil, as the function from the rule text and the series
  start to the rule's timestamps (\<open>None\<close> when it raises \<^verbatim>\<open>ValueError\<close>).
\<close>

record env =
  dstart :: date
  dend :: date
  category_pattern :: "string \<Rightarrow> string option"
  rrulestr :: "string \<Rightarrow> datetime \<Rightarrow> datetime list option"

text \<open>
  One call of \<^verbatim>\<open>add_event\<close>, as the main loop makes it: the three arguments, and the
  override component when the call is made from the override branch (lines 148, 150).
\<close>

record call =
  c_dtstart :: datetime
  c_duration :: timedelta
  c_summary :: string
  c_override :: "vevent option"

text \<open>
  One line of the log file at level INFO: the arguments of
  \<^verbatim>\<open>logging.info('relaxed matching: %s', DEBUG_INFO)\<close>, that is the UID, summary,
  DTSTART and DTEND of the series being expanded.
\<close>

record log_entry =
  l_uid :: string
  l_summary :: string
  l_dtstart :: datetime
  l_dtend :: datetime

text \<open>
  The globals of the script: \<^verbatim>\<open>event_dict\<close> (a dict, kept as an association list in
  insertion order, each value the pair of the bucket's total and its event list),
  \<^verbatim>\<open>total_duration\<close> and \<^verbatim>\<open>recurrence_list\<close>; and the log file. The field
  \<open>calls\<close> is a history variable, not a variable of the script: it records the calls
  of \<^verbatim>\<open>add_event\<close> in order, so that properties of the resolved occurrences can be
  stated. No definition reads it.
\<close>

record state =
  event_dict :: "(string \<times> timedelta \<times> Event list) list"
  total_duration :: timedelta
  recurrence_list :: "vevent list"
  log_info :: "log_entry list"
  calls :: "call list"

definition init_state :: "vevent list \<Rightarrow> state" where
  "init_state pool =
     \<lparr>event_dict = [], total_duration = 0, recurrence_list = pool, log_info = [], calls = []\<rparr>"

datatype error = ValueError | TypeError | AttributeError

section \<open>Strings\<close>

text \<open>
  Titles are taken as ASCII text. \<^verbatim>\<open>str.isalnum\<close> and \<^verbatim>\<open>str.lower\<close> on ASCII:
\<close>

definition isalnum :: "char \<Rightarrow> bool" where
  "isalnum c = (let n = (of_char c :: nat) in
     (48 \<le> n \<and> n \<le> 57) \<or> (65 \<le> n \<and> n \<le> 90) \<or> (97 \<le> n \<and> n \<le> 122))"

definition lower_char :: "char \<Rightarrow> char" where
  "lower_char c = (let n = (of_char c :: nat) in
     if 65 \<le> n \<and> n \<le> 90 then char_of (n + 32) else c)"

definition lower :: "string \<Rightarrow> string" where
  "lower s = map lower_char s"

definition CATEGORY_IGNORED :: string where
  "CATEGORY_IGNORED = ''_Uncategorized_''"

text \<open>
  The default of \<^verbatim>\<open>--cregex\<close> (line 28):
  \<^verbatim>\<open>^(\[[A-Z-a-z-0-9-+_\\\/\|]*\])|([A-Z-a-z-0-9-+_\\\/\|]{1,7} - )\<close>.
  The character class holds the ASCII letters and digits and the six characters
  \<^verbatim>\<open>- + _ \ / |\<close>. \<^verbatim>\<open>match\<close> anchors at the start of the title. Neither
  \<^verbatim>\<open>]\<close> nor the blank is in the class, so each alternative can only succeed
  with the longest run of class characters: the first on a \<^verbatim>\<open>[\<close>, the run and a
  \<^verbatim>\<open>]\<close>; the second on a run of one to seven characters followed by \<^verbatim>\<open> - \<close>.
\<close>

definition in_class :: "char \<Rightarrow> bool" where
  "in_class c = (isalnum c \<or> c = CHR ''-'' \<or> c = CHR ''+'' \<or> c = CHR ''_''
     \<or> c = CHR 0x5C \<or> c = CHR ''/'' \<or> c = CHR ''|'')"

definition match_bracket :: "string \<Rightarrow> string option" where
  "match_bracket s =
     (case s of
        [] \<Rightarrow> None
      | c # rest \<Rightarrow>
          if c = CHR ''[''
          then (case dropWhile in_class rest of
                  [] \<Rightarrow> None
                | d # _ \<Rightarrow> if d = CHR '']''
                           then Some (c # takeWhile in_class rest @ [d]) else None)
          else None)"

definition match_dash :: "string \<Rightarrow> string option" where
  "match_dash s =
     (let run = takeWhile in_class s in
      if 1 \<le> length run \<and> length run \<le> 7 \<and> take 3 (dropWhile in_class s) = '' - ''
      then Some (run @ '' - '') else None)"

definition default_cregex :: "string \<Rightarrow> string option" where
  "default_cregex s =
     (case match_bracket s of Some m \<Rightarrow> Some m | None \<Rightarrow> match_dash s)"

section \<open>The aggregator: \<^verbatim>\<open>add_event\<close>\<close>

text \<open>
  Lines 87-90: the first key of the dict, in insertion order, that equals the category
  up to case replaces it.
\<close>

fun fold_case :: "string list \<Rightarrow> string \<Rightarrow> string" where
  "fold_case [] category = category"
| "fold_case (e # es) category =
     (if lower e = lower category then e else fold_case es category)"

text \<open>
  Lines 91-95: the bucket of a key that is in the dict grows by the duration and the
  event, in place; a new key is inserted last.
\<close>

fun dict_add ::
  "(string \<times> timedelta \<times> Event list) list \<Rightarrow> string \<Rightarrow> timedelta \<Rightarrow> Event
     \<Rightarrow> (string \<times> timedelta \<times> Event list) list" where
  "dict_add [] category duration ev = [(category, duration, [ev])]"
| "dict_add ((k, tot, evs) # rest) category duration ev =
     (if k = category then (k, tot + duration, evs @ [ev]) # rest
      else (k, tot, evs) # dict_add rest category duration ev)"

text \<open>Lines 70-95.\<close>

definition add_event :: "env \<Rightarrow> state \<Rightarrow> datetime \<Rightarrow> timedelta \<Rightarrow> string \<Rightarrow> state" where
  "add_event en st dtstart duration summary0 =
     (let summary = take 200 summary0 in
      if dstart en \<le> date_of dtstart \<and> dend en \<ge> date_of dtstart
      then
        (let m = category_pattern en summary;
             total = (case m of None \<Rightarrow> total_duration st
                      | Some m0 \<Rightarrow> total_duration st + duration);
             category0 = (case m of None \<Rightarrow> CATEGORY_IGNORED
                          | Some m0 \<Rightarrow> filter isalnum m0);
             category = fold_case (map fst (event_dict st)) category0;
             ev = \<lparr>ev_dtstart = dtstart, ev_duration = duration, ev_summary = summary,
                   ev_category = category\<rparr>
         in st\<lparr>event_dict := dict_add (event_dict st) category duration ev,
               total_duration := total\<rparr>)
      else st)"

section \<open>The expander\<close>

text \<open>
  Modelled from the spec: the class \<^verbatim>\<open>rruleset\<close> of dateutil, whose code is not part of
  the script. \<^verbatim>\<open>list(rrset)\<close> after \<^verbatim>\<open>rrset.rrule(r)\<close> and the calls
  \<^verbatim>\<open>rrset.exdate(x)\<close> is modelled from the words "remove from its output any
  timestamp present in exclusions": the timestamps of the rule, in their order, without
  those equal (as datetimes) to an exclusion date.
\<close>

definition rruleset_list :: "datetime list \<Rightarrow> datetime list \<Rightarrow> datetime list" where
  "rruleset_list gen exdates = filter (\<lambda>g. \<not> list_ex (dt_eq g) exdates) gen"

text \<open>
  Lines 130-132: each exclusion date is handed to the rule set with its zone
  overwritten by the zone of the series start.
\<close>

definition exdates_of :: "vevent \<Rightarrow> datetime \<Rightarrow> datetime list" where
  "exdates_of component dtstart =
     map (\<lambda>exdate. replace_tzinfo exdate (utcoff dtstart)) (EXDATE component)"

text \<open>Lines 125-133: the instants of a series. \<^verbatim>\<open>rrulestr\<close> may raise.\<close>

definition expand :: "env \<Rightarrow> vevent \<Rightarrow> string \<Rightarrow> datetime \<Rightarrow> error + datetime list" where
  "expand en component rule dtstart =
     (case rrulestr en rule dtstart of
        None \<Rightarrow> Inl ValueError
      | Some gen \<Rightarrow> Inr (rruleset_list gen (exdates_of component dtstart)))"

section \<open>The reconciler\<close>

text \<open>\<^verbatim>\<open>str(component.get('SUMMARY'))\<close> (line 112).\<close>

definition str_summary :: "string option \<Rightarrow> string" where
  "str_summary s = (case s of None \<Rightarrow> ''None'' | Some t \<Rightarrow> t)"

text \<open>The \<^verbatim>\<open>DEBUG_INFO\<close> of a series (line 115), as the log keeps it.\<close>

definition debug_info :: "vevent \<Rightarrow> datetime \<Rightarrow> log_entry" where
  "debug_info component dtstart =
     \<lparr>l_uid = UID component, l_summary = str_summary (SUMMARY component),
      l_dtstart = dtstart, l_dtend = DTEND component\<rparr>"

text \<open>
  Lines 146-151, reached with \<^verbatim>\<open>FOUND\<close> true: the override \<open>e\<close> is handed to
  \<^verbatim>\<open>add_event\<close> with its own start, duration and summary (the summary of the series
  when it has none, or an empty one) and removed from the pool. Subtracting a
  \<^verbatim>\<open>date\<close> from the \<^verbatim>\<open>datetime\<close> DTEND raises \<^verbatim>\<open>TypeError\<close>.
\<close>

definition take_override :: "env \<Rightarrow> vevent \<Rightarrow> vevent \<Rightarrow> state \<Rightarrow> error + state" where
  "take_override en component e st =
     (case DTSTART e of
        Date d \<Rightarrow> Inl TypeError
      | DateTime s \<Rightarrow>
          (let duration = dt_sub (DTEND e) s;
               summary = (case SUMMARY e of
                            None \<Rightarrow> str_summary (SUMMARY component)
                          | Some t \<Rightarrow> if t \<noteq> [] then t
                                      else str_summary (SUMMARY component));
               st1 = add_event en st s duration summary
           in Inr (st1\<lparr>recurrence_list := remove1 e (recurrence_list st1),
                       calls := calls st1 @
                         [\<lparr>c_dtstart = s, c_duration = duration, c_summary = summary,
                           c_override = Some e\<rparr>]\<rparr>)))"

text \<open>
  Lines 135-152: the scan of a copy of the pool for one generated instant \<open>i\<close>. The
  result is \<^verbatim>\<open>FOUND\<close> and the state. A component of the pool without RECURRENCE-ID
  would raise \<^verbatim>\<open>AttributeError\<close> (the pool never holds one).
\<close>

fun scan_overrides ::
  "env \<Rightarrow> vevent \<Rightarrow> datetime \<Rightarrow> datetime \<Rightarrow> vevent list \<Rightarrow> state \<Rightarrow> error + (bool \<times> state)"
where
  "scan_overrides en component dtstart i [] st = Inr (False, st)"
| "scan_overrides en component dtstart i (e # es) st =
     (if UID e = UID component
      then (case RECURRENCE_ID e of
              None \<Rightarrow> Inl AttributeError
            | Some rid \<Rightarrow>
                (let dte = astimezone_utc rid;
                     recur = astimezone_utc i;
                     FOUND1 = dt_eq recur dte;
                     relaxed = (date_of recur = date_of dte);
                     st1 = (if relaxed
                            then st\<lparr>log_info := log_info st @ [debug_info component dtstart]\<rparr>
                            else st);
                     FOUND = (FOUND1 \<or> relaxed)
                 in if FOUND
                    then (case take_override en component e st1 of
                            Inl err \<Rightarrow> Inl err
                          | Inr st2 \<Rightarrow> Inr (True, st2))
                    else scan_overrides en component dtstart i es st))
      else scan_overrides en component dtstart i es st)"

text \<open>Lines 134-154: the body of the loop over the generated instants.\<close>

definition process_instant :: "env \<Rightarrow> vevent \<Rightarrow> datetime \<Rightarrow> datetime \<Rightarrow> state \<Rightarrow> error + state" where
  "process_instant en component dtstart i st =
     (case scan_overrides en component dtstart i (recurrence_list st) st of
        Inl err \<Rightarrow> Inl err
      | Inr (FOUND, st1) \<Rightarrow>
          if FOUND then Inr st1
          else (let duration = dt_sub (DTEND component) dtstart;
                    summary = str_summary (SUMMARY component);
                    st2 = add_event en st1 i duration summary
                in Inr (st2\<lparr>calls := calls st2 @
                          [\<lparr>c_dtstart = i, c_duration = duration, c_summary = summary,
                            c_override = None\<rparr>]\<rparr>)))"

text \<open>Line 133: the loop over \<^verbatim>\<open>list(rrset)\<close>.\<close>

fun series_loop :: "env \<Rightarrow> vevent \<Rightarrow> datetime \<Rightarrow> datetime list \<Rightarrow> state \<Rightarrow> error + state" where
  "series_loop en component dtstart [] st = Inr st"
| "series_loop en component dtstart (i # rest) st =
     (case process_instant en component dtstart i st of
        Inl err \<Rightarrow> Inl err
      | Inr st1 \<Rightarrow> series_loop en component dtstart rest st1)"

text \<open>
  Lines 110-154: one component of the second walk. Overrides and all-day events are
  passed over, an event without RRULE is added as it is, a series is expanded and
  reconciled. Nothing catches the exception of \<^verbatim>\<open>rrulestr\<close>.
\<close>

definition process_component :: "env \<Rightarrow> vevent \<Rightarrow> state \<Rightarrow> error + state" where
  "process_component en component st =
     (case RECURRENCE_ID component of
        Some rid \<Rightarrow> Inr st
      | None \<Rightarrow>
          (case DTSTART component of
             Date d \<Rightarrow> Inr st
           | DateTime dtstart \<Rightarrow>
               (case RRULE component of
                  None \<Rightarrow>
                    (let duration = dt_sub (DTEND component) dtstart;
                         summary = str_summary (SUMMARY component);
                         st1 = add_event en st dtstart duration summary
                     in Inr (st1\<lparr>calls := calls st1 @
                               [\<lparr>c_dtstart = dtstart, c_duration = duration,
                                 c_summary = summary, c_override = None\<rparr>]\<rparr>))
                | Some rule \<Rightarrow>
                    (case expand en component rule dtstart of
                       Inl err \<Rightarrow> Inl err
                     | Inr instants \<Rightarrow> series_loop en component dtstart instants st))))"

text \<open>Line 109: the second walk over the VEVENT components.\<close>

fun main_loop :: "env \<Rightarrow> vevent list \<Rightarrow> state \<Rightarrow> error + state" where
  "main_loop en [] st = Inr st"
| "main_loop en (component # rest) st =
     (case process_component en component st of
        Inl err \<Rightarrow> Inl err
      | Inr st1 \<Rightarrow> main_loop en rest st1)"

text \<open>
  Lines 103-107 and 109-155: the first walk collects the overrides, the second
  processes the other components. The report (lines 157-167) is printed from the
  final \<^verbatim>\<open>event_dict\<close> and \<^verbatim>\<open>total_duration\<close>; when an exception escapes, the
  script ends before it and nothing is printed.
\<close>

definition run :: "env \<Rightarrow> vevent list \<Rightarrow> error + state" where
  "run en calendar =
     main_loop en calendar
       (init_state (filter (\<lambda>component. RECURRENCE_ID component \<noteq> None) calendar))"

section \<open>Observations\<close>

text \<open>
  The functions of this section are not part of the script; the properties are stated
  with them. \<open>count_events\<close> counts the events held in all buckets,
  \<open>bucket_total\<close> is \<^verbatim>\<open>event_dict[key][0]\<close> (0 when the key has no bucket),
  \<open>counted_sum\<close> sums the totals of the buckets other than the uncategorized one, and
  \<open>insert_all\<close> makes a sequence of \<^verbatim>\<open>add_event\<close> calls. \<open>in_window\<close> is the test
  of line 75 and \<open>category0_of\<close> the category of lines 76-80, before the case
  folding. \<open>matched_sum\<close> and \<open>unmatched_sum\<close> add the durations of the calls inside
  the window whose title does, or does not, match the pattern.

  For the reconciler: \<open>exact_match\<close> is the test of line 139 and \<open>same_utc_date\<close>
  the test of line 141; a \<open>candidate\<close> for an instant is an override of the same UID
  whose RECURRENCE-ID has the UTC date of the instant. \<open>override_summary\<close> is the
  summary of lines 147-150, \<open>plain_call\<close> the call of line 154, \<open>consumed\<close> the
  overrides behind a list of calls, and \<open>resolved_ok\<close> says that a call is the
  resolution of an instant: the call of line 154, or a call made from a candidate
  with the candidate's start, duration and summary. An override is a
  \<open>timed_override\<close> when it has a RECURRENCE-ID and its DTSTART is a datetime.

  \<open>keys_ok\<close> and \<open>agg_inv\<close> are the invariants of the aggregator used in the
  proofs: every key is the uncategorized key or made of letters and digits, and
  \<^verbatim>\<open>total_duration\<close> is the sum of the counted buckets.
\<close>

definition count_events :: "state \<Rightarrow> nat" where
  "count_events st = sum_list (map (\<lambda>b. length (snd (snd b))) (event_dict st))"

definition bucket_total :: "state \<Rightarrow> string \<Rightarrow> timedelta" where
  "bucket_total st key =
     (case map_of (event_dict st) key of None \<Rightarrow> 0 | Some b \<Rightarrow> fst b)"

definition counted_sum :: "state \<Rightarrow> timedelta" where
  "counted_sum st =
     sum_list (map (\<lambda>b. fst (snd b))
       (filter (\<lambda>b. fst b \<noteq> CATEGORY_IGNORED) (event_dict st)))"

fun insert_all :: "env \<Rightarrow> (datetime \<times> timedelta \<times> string) list \<Rightarrow> state \<Rightarrow> state" where
  "insert_all en [] st = st"
| "insert_all en ((dtstart, duration, summary) # rest) st =
     insert_all en rest (add_event en st dtstart duration summary)"

definition in_window :: "env \<Rightarrow> datetime \<Rightarrow> bool" where
  "in_window en d = (dstart en \<le> date_of d \<and> date_of d \<le> dend en)"

definition category0_of :: "env \<Rightarrow> string \<Rightarrow> string" where
  "category0_of en summary0 =
     (case category_pattern en (take 200 summary0) of
        None \<Rightarrow> CATEGORY_IGNORED
      | Some m0 \<Rightarrow> filter isalnum m0)"

definition keys_ok :: "state \<Rightarrow> bool" where
  "keys_ok st =
     list_all (\<lambda>k. k = CATEGORY_IGNORED \<or> list_all isalnum k) (map fst (event_dict st))"

definition matched_sum :: "env \<Rightarrow> (datetime \<times> timedelta \<times> string) list \<Rightarrow> timedelta" where
  "matched_sum en cs =
     sum_list (map (\<lambda>c. fst (snd c))
       (filter (\<lambda>c. in_window en (fst c) \<and>
                    category_pattern en (take 200 (snd (snd c))) \<noteq> None) cs))"

definition unmatched_sum :: "env \<Rightarrow> (datetime \<times> timedelta \<times> string) list \<Rightarrow> timedelta" where
  "unmatched_sum en cs =
     sum_list (map (\<lambda>c. fst (snd c))
       (filter (\<lambda>c. in_window en (fst c) \<and>
                    category_pattern en (take 200 (snd (snd c))) = None) cs))"

definition same_utc_date :: "datetime \<Rightarrow> datetime \<Rightarrow> bool" where
  "same_utc_date i rid = (date_of (astimezone_utc i) = date_of (astimezone_utc rid))"

definition exact_match :: "datetime \<Rightarrow> vevent \<Rightarrow> bool" where
  "exact_match i e =
     (case RECURRENCE_ID e of None \<Rightarrow> False
      | Some rid \<Rightarrow> dt_eq (astimezone_utc i) (astimezone_utc rid))"

definition candidate :: "vevent \<Rightarrow> datetime \<Rightarrow> vevent \<Rightarrow> bool" where
  "candidate component i e =
     (UID e = UID component \<and>
      (case RECURRENCE_ID e of None \<Rightarrow> False | Some rid \<Rightarrow> same_utc_date i rid))"

definition override_summary :: "vevent \<Rightarrow> vevent \<Rightarrow> string" where
  "override_summary component e =
     (case SUMMARY e of
        None \<Rightarrow> str_summary (SUMMARY component)
      | Some t \<Rightarrow> if t \<noteq> [] then t else str_summary (SUMMARY component))"

fun consumed :: "call list \<Rightarrow> vevent list" where
  "consumed [] = []"
| "consumed (r # rs) =
     (case c_override r of None \<Rightarrow> consumed rs | Some e \<Rightarrow> e # consumed rs)"

definition plain_call :: "vevent \<Rightarrow> datetime \<Rightarrow> datetime \<Rightarrow> call" where
  "plain_call component dtstart i =
     \<lparr>c_dtstart = i, c_duration = dt_sub (DTEND component) dtstart,
      c_summary = str_summary (SUMMARY component), c_override = None\<rparr>"

definition resolved_ok :: "vevent \<Rightarrow> datetime \<Rightarrow> datetime \<Rightarrow> call \<Rightarrow> bool" where
  "resolved_ok component dtstart i r =
     (case c_override r of
        None \<Rightarrow> r = plain_call component dtstart i
      | Some e \<Rightarrow>
          candidate component i e \<and> DTSTART e = DateTime (c_dtstart r) \<and>
          c_duration r = dt_sub (DTEND e) (c_dtstart r) \<and>
          c_summary r = override_summary component e)"

definition agg_inv :: "state \<Rightarrow> bool" where
  "agg_inv st = (keys_ok st \<and> total_duration st = counted_sum st)"


section \<open>Example inputs\<close>

text \<open>
  A fragment of \<^verbatim>\<open>rrulestr\<close>: two rule texts with their timestamps, and nothing else
  parses. It is used on these two texts and on
  \<^verbatim>\<open>FREQ=DAILY;UNTIL=19700103T090000\<close>, which dateutil rejects with
  \<^verbatim>\<open>ValueError\<close> for a series start that has a zone (the UNTIL is not in UTC).
\<close>

definition rrulestr_example :: "string \<Rightarrow> datetime \<Rightarrow> datetime list option" where
  "rrulestr_example rule dtstart =
     (if rule = ''FREQ=DAILY;COUNT=3''
      then Some [dtstart, dtstart\<lparr>wall := wall dtstart + 86400\<rparr>,
                 dtstart\<lparr>wall := wall dtstart + 172800\<rparr>]
      else if rule = ''FREQ=HOURLY;COUNT=2''
      then Some [dtstart, dtstart\<lparr>wall := wall dtstart + 3600\<rparr>]
      else None)"

text \<open>The window is the first seven days of 1970, the pattern the default one.\<close>

definition env_example :: env where
  "env_example = \<lparr>dstart = 0, dend = 6, category_pattern = default_cregex,
                   rrulestr = rrulestr_example\<rparr>"

text \<open>1970-01-01 at 09:00, 10:00 and 14:00 in a zone one hour east of UTC.\<close>

definition at_9 :: datetime where
  "at_9 = \<lparr>wall = 32400, utcoff = 3600\<rparr>"

definition at_10 :: datetime where
  "at_10 = \<lparr>wall = 36000, utcoff = 3600\<rparr>"

definition at_14 :: datetime where
  "at_14 = \<lparr>wall = 50400, utcoff = 3600\<rparr>"

text \<open>1970-01-01 at 01:00 two hours east of UTC: in UTC it is still 1969-12-31.\<close>

definition early :: datetime where
  "early = \<lparr>wall = 3600, utcoff = 7200\<rparr>"

text \<open>
  A series of two half-hour meetings, at 09:00 and at 10:00, and an override for each:
  the 10:00 meeting moved to 10:15, the 09:00 meeting moved to 09:10.
\<close>

definition series_hourly :: vevent where
  "series_hourly = \<lparr>UID = ''s1'', SUMMARY = Some ''[DEV] sync'', DTSTART = DateTime at_9,
     DTEND = \<lparr>wall = 34200, utcoff = 3600\<rparr>, RECURRENCE_ID = None,
     RRULE = Some ''FREQ=HOURLY;COUNT=2'', EXDATE = []\<rparr>"

definition ov_10 :: vevent where
  "ov_10 = \<lparr>UID = ''s1'', SUMMARY = Some ''[DEV] late'',
     DTSTART = DateTime \<lparr>wall = 36900, utcoff = 3600\<rparr>,
     DTEND = \<lparr>wall = 38700, utcoff = 3600\<rparr>, RECURRENCE_ID = Some at_10,
     RRULE = None, EXDATE = []\<rparr>"

definition ov_9 :: vevent where
  "ov_9 = \<lparr>UID = ''s1'', SUMMARY = None,
     DTSTART = DateTime \<lparr>wall = 33000, utcoff = 3600\<rparr>,
     DTEND = \<lparr>wall = 34800, utcoff = 3600\<rparr>, RECURRENCE_ID = Some at_9,
     RRULE = None, EXDATE = []\<rparr>"

text \<open>A series whose rule text \<^verbatim>\<open>rrulestr\<close> rejects.\<close>

definition series_bad :: vevent where
  "series_bad = \<lparr>UID = ''s2'', SUMMARY = Some ''[OPS] review'', DTSTART = DateTime at_9,
     DTEND = at_10, RECURRENCE_ID = None, RRULE = Some ''FREQ=DAILY;UNTIL=19700103T090000'', EXDATE = []\<rparr>"

text \<open>A daily series of three meetings with the second one excluded.\<close>

definition series_daily :: vevent where
  "series_daily = \<lparr>UID = ''s3'', SUMMARY = Some ''[DEV] daily'', DTSTART = DateTime at_9,
     DTEND = at_10, RECURRENCE_ID = None, RRULE = Some ''FREQ=DAILY;COUNT=3'',
     EXDATE = [\<lparr>wall = 118800, utcoff = 3600\<rparr>]\<rparr>"

text \<open>
  The series of two meetings with one exclusion date, 10:00 two hours east of UTC:
  the instant of the 09:00 meeting, under the wall clock of the 10:00 meeting.
\<close>

definition exdate_east :: datetime where
  "exdate_east = \<lparr>wall = 36000, utcoff = 7200\<rparr>"

definition series_hourly_excl :: vevent where
  "series_hourly_excl = series_hourly\<lparr>EXDATE := [exdate_east]\<rparr>"

text \<open>Three insertions: a categorized one, an uncategorized one, one outside the window.\<close>

definition insertions_example :: "(datetime \<times> timedelta \<times> string) list" where
  "insertions_example =
     [(at_9, 5400, ''[DEV] standup''), (at_10, 3600, ''lunch''),
      (\<lparr>wall = 691200, utcoff = 0\<rparr>, 7200, ''[DEV] outside'')]"

section \<open>Lemmas\<close>

lemma find_Some_set: "find P xs = Some x \<Longrightarrow> x \<in> set xs \<and> P x"
  by (induction xs) (auto split: if_splits)

lemma lower_char_alnum: "isalnum c \<Longrightarrow> lower_char c \<noteq> CHR ''_''"
  by (auto simp: isalnum_def lower_char_def Let_def char_of_eq_iff take_bit_eq_mod)

lemma lower_ignored: "lower CATEGORY_IGNORED = CHR ''_'' # lower (tl CATEGORY_IGNORED)"
  by (simp add: lower_def CATEGORY_IGNORED_def lower_char_def)

lemma lower_alnum_not_ignored:
  assumes "\<forall>c\<in>set s. isalnum c"
  shows "lower s \<noteq> lower CATEGORY_IGNORED"
proof (cases s)
  case Nil
  then show ?thesis by (simp add: lower_ignored) (simp add: lower_def)
next
  case (Cons a list)
  with assms have "lower_char a \<noteq> CHR ''_''" by (simp add: lower_char_alnum)
  with Cons show ?thesis by (simp add: lower_ignored) (simp add: lower_def)
qed

lemma fold_case_cases:
  "(fold_case ks c = c \<and> \<not> list_ex (\<lambda>k. lower k = lower c) ks) \<or>
   (fold_case ks c \<in> set ks \<and> lower (fold_case ks c) = lower c)"
  by (induction ks) auto

lemma fold_case_find:
  "fold_case ks c = (case find (\<lambda>k. lower k = lower c) ks of None \<Rightarrow> c | Some k \<Rightarrow> k)"
  by (induction ks) auto

lemma dict_add_keys:
  "map fst (dict_add d k dur ev) = (if k \<in> fst ` set d then map fst d else map fst d @ [k])"
  by (induction d k dur ev rule: dict_add.induct) auto

lemma dict_add_count:
  "sum_list (map (\<lambda>b. length (snd (snd b))) (dict_add d k dur ev)) = Suc (sum_list (map (\<lambda>b. length (snd (snd b))) d))"
  by (induction d k dur ev rule: dict_add.induct) auto

lemma dict_add_counted:
  "sum_list (map (\<lambda>b. fst (snd b)) (filter (\<lambda>b. fst b \<noteq> X) (dict_add d k dur ev)))
   = sum_list (map (\<lambda>b. fst (snd b)) (filter (\<lambda>b. fst b \<noteq> X) d)) + (if k = X then 0 else dur)"
  by (induction d k dur ev rule: dict_add.induct) auto

lemma dict_add_map_of:
  "map_of (dict_add d k dur ev) k' =
     (if k' = k then Some (case map_of d k of None \<Rightarrow> (dur, [ev]) | Some (t, es) \<Rightarrow> (t + dur, es @ [ev]))
      else map_of d k')"
  by (induction d k dur ev rule: dict_add.induct) auto

lemma add_event_out: "\<not> in_window en d \<Longrightarrow> add_event en st d dur s = st"
  by (auto simp: add_event_def in_window_def Let_def)

lemma add_event_in_dict: "in_window en d \<Longrightarrow>
  event_dict (add_event en st d dur s) =
    dict_add (event_dict st) (fold_case (map fst (event_dict st)) (category0_of en s)) dur
      \<lparr>ev_dtstart = d, ev_duration = dur, ev_summary = take 200 s,
        ev_category = fold_case (map fst (event_dict st)) (category0_of en s)\<rparr>"
  by (auto simp: add_event_def in_window_def Let_def category0_of_def split: option.splits)

lemma add_event_in_total: "in_window en d \<Longrightarrow>
  total_duration (add_event en st d dur s) =
    total_duration st + (if category_pattern en (take 200 s) = None then 0 else dur)"
  by (auto simp: add_event_def in_window_def Let_def split: option.splits)

lemma add_event_other:
  "recurrence_list (add_event en st d dur s) = recurrence_list st"
  "log_info (add_event en st d dur s) = log_info st"
  "calls (add_event en st d dur s) = calls st"
  by (auto simp: add_event_def Let_def)

lemma add_event_kept:
  "(add_event en st d dur s \<noteq> st) = in_window en d \<and>
   count_events (add_event en st d dur s) =
     count_events st + (if in_window en d then 1 else 0)"
proof (cases "in_window en d")
  case True
  have "count_events (add_event en st d dur s) = Suc (count_events st)"
    by (simp add: count_events_def add_event_in_dict[OF True] dict_add_count)
  moreover from this have "add_event en st d dur s \<noteq> st" by auto
  ultimately show ?thesis using True by simp
next
  case False
  then show ?thesis using add_event_out[OF False] by simp
qed

lemma category0_alnum:
  "category_pattern en (take 200 s) = Some m \<Longrightarrow> list_all isalnum (category0_of en s)"
  by (simp add: category0_of_def list_all_iff)

lemma category0_ignored:
  "category_pattern en (take 200 s) = None \<Longrightarrow> category0_of en s = CATEGORY_IGNORED"
  by (simp add: category0_of_def)

lemma fold_case_ignored:
  assumes "keys_ok st"
  shows "fold_case (map fst (event_dict st)) CATEGORY_IGNORED = CATEGORY_IGNORED"
proof -
  let ?k = "fold_case (map fst (event_dict st)) CATEGORY_IGNORED"
  from fold_case_cases[of "map fst (event_dict st)" CATEGORY_IGNORED]
  show ?thesis
  proof
    assume "?k = CATEGORY_IGNORED \<and> \<not> list_ex (\<lambda>k. lower k = lower CATEGORY_IGNORED) (map fst (event_dict st))"
    then show ?thesis by simp
  next
    assume a: "?k \<in> set (map fst (event_dict st)) \<and> lower ?k = lower CATEGORY_IGNORED"
    with assms have "?k = CATEGORY_IGNORED \<or> list_all isalnum ?k"
      unfolding keys_ok_def list_all_iff by blast
    with a lower_alnum_not_ignored[of ?k] show ?thesis by (auto simp: list_all_iff)
  qed
qed

lemma fold_case_alnum:
  assumes "keys_ok st" "list_all isalnum c"
  shows "fold_case (map fst (event_dict st)) c \<noteq> CATEGORY_IGNORED \<and>
         list_all isalnum (fold_case (map fst (event_dict st)) c)"
proof -
  let ?k = "fold_case (map fst (event_dict st)) c"
  have ne: "lower c \<noteq> lower CATEGORY_IGNORED"
    using assms(2) lower_alnum_not_ignored[of c] by (simp add: list_all_iff)
  from fold_case_cases[of "map fst (event_dict st)" c]
  show ?thesis
  proof
    assume "?k = c \<and> \<not> list_ex (\<lambda>k. lower k = lower c) (map fst (event_dict st))"
    with ne assms(2) show ?thesis by auto
  next
    assume a: "?k \<in> set (map fst (event_dict st)) \<and> lower ?k = lower c"
    with ne have k: "?k \<noteq> CATEGORY_IGNORED" by auto
    from a assms(1) have "?k = CATEGORY_IGNORED \<or> list_all isalnum ?k"
      unfolding keys_ok_def list_all_iff by blast
    with k show ?thesis by simp
  qed
qed

lemma keys_ok_dict_add:
  assumes "keys_ok st" "k = CATEGORY_IGNORED \<or> list_all isalnum k"
  shows "keys_ok (st\<lparr>event_dict := dict_add (event_dict st) k dur ev, total_duration := t\<rparr>)"
  using assms by (auto simp: keys_ok_def dict_add_keys list_all_iff)

lemma add_event_eq_in: "in_window en d \<Longrightarrow>
  add_event en st d dur s =
    st\<lparr>event_dict := event_dict (add_event en st d dur s),
       total_duration := total_duration (add_event en st d dur s)\<rparr>"
  by (auto simp: add_event_def in_window_def Let_def)

lemma add_event_keys_ok:
  assumes "keys_ok st"
  shows "keys_ok (add_event en st d dur s)"
proof (cases "in_window en d")
  case False
  then show ?thesis using assms by (simp add: add_event_out)
next
  case True
  let ?k = "fold_case (map fst (event_dict st)) (category0_of en s)"
  have "?k = CATEGORY_IGNORED \<or> list_all isalnum ?k"
  proof (cases "category_pattern en (take 200 s)")
    case None
    then show ?thesis using fold_case_ignored[OF assms] by (simp add: category0_ignored)
  next
    case (Some m)
    then show ?thesis using fold_case_alnum[OF assms category0_alnum[OF Some]] by simp
  qed
  from keys_ok_dict_add[OF assms this]
  show ?thesis
    by (subst add_event_eq_in[OF True]) (simp add: add_event_in_dict[OF True])
qed

lemma counted_sum_add_event:
  assumes "keys_ok st"
  shows "counted_sum (add_event en st d dur s) - counted_sum st =
         total_duration (add_event en st d dur s) - total_duration st"
proof (cases "in_window en d")
  case False
  then show ?thesis by (simp add: add_event_out)
next
  case True
  show ?thesis
  proof (cases "category_pattern en (take 200 s)")
    case None
    then show ?thesis using fold_case_ignored[OF assms]
      by (simp add: counted_sum_def add_event_in_dict[OF True] add_event_in_total[OF True]
          dict_add_counted category0_ignored)
  next
    case (Some m)
    then show ?thesis using fold_case_alnum[OF assms category0_alnum[OF Some]]
      by (simp add: counted_sum_def add_event_in_dict[OF True] add_event_in_total[OF True]
          dict_add_counted)
  qed
qed

lemma ignored_total_add_event:
  assumes "keys_ok st"
  shows "bucket_total (add_event en st d dur s) CATEGORY_IGNORED =
         bucket_total st CATEGORY_IGNORED +
           (if in_window en d \<and> category_pattern en (take 200 s) = None then dur else 0)"
proof (cases "in_window en d")
  case False
  then show ?thesis by (simp add: add_event_out)
next
  case True
  show ?thesis
  proof (cases "category_pattern en (take 200 s)")
    case None
    then show ?thesis using fold_case_ignored[OF assms] True
      by (simp add: bucket_total_def add_event_in_dict[OF True] dict_add_map_of category0_ignored
          split: option.splits prod.splits)
  next
    case (Some m)
    then show ?thesis using fold_case_alnum[OF assms category0_alnum[OF Some]] True
      by (auto simp: bucket_total_def add_event_in_dict[OF True] dict_add_map_of)
  qed
qed

lemma insert_all_counted:
  "keys_ok st \<Longrightarrow> counted_sum (insert_all en cs st) - counted_sum st =
     total_duration (insert_all en cs st) - total_duration st"
proof (induction en cs st rule: insert_all.induct)
  case (1 en st)
  then show ?case by simp
next
  case (2 en dtstart duration summary rest st)
  from 2 add_event_keys_ok[of st en dtstart duration summary]
    counted_sum_add_event[of st en dtstart duration summary]
  show ?case by fastforce
qed

lemma insert_all_total:
  "total_duration (insert_all en cs st) = total_duration st + matched_sum en cs"
proof (induction en cs st rule: insert_all.induct)
  case (1 en st)
  then show ?case by (simp add: matched_sum_def)
next
  case (2 en dtstart duration summary rest st)
  then show ?case
    by (cases "in_window en dtstart")
       (auto simp: matched_sum_def add_event_in_total add_event_out)
qed

lemma insert_all_ignored:
  "keys_ok st \<Longrightarrow> bucket_total (insert_all en cs st) CATEGORY_IGNORED =
     bucket_total st CATEGORY_IGNORED + unmatched_sum en cs"
proof (induction en cs st rule: insert_all.induct)
  case (1 en st)
  then show ?case by (simp add: unmatched_sum_def)
next
  case (2 en dtstart duration summary rest st)
  then show ?case
    by (auto simp: unmatched_sum_def add_event_keys_ok ignored_total_add_event)
qed

lemma keys_ok_init: "keys_ok (init_state pool)"
  by (simp add: keys_ok_def init_state_def)

lemma init_sums: "counted_sum (init_state pool) = 0" "total_duration (init_state pool) = 0"
  "bucket_total (init_state pool) k = 0"
  by (simp_all add: counted_sum_def init_state_def bucket_total_def)

lemma distinct_lower_add_event:
  assumes "distinct (map lower (map fst (event_dict st)))"
  shows "distinct (map lower (map fst (event_dict (add_event en st d dur s))))"
proof (cases "in_window en d")
  case False
  then show ?thesis using assms by (simp add: add_event_out)
next
  case True
  let ?ks = "map fst (event_dict st)"
  let ?k = "fold_case ?ks (category0_of en s)"
  from fold_case_cases[of ?ks "category0_of en s"] show ?thesis
  proof
    assume a: "?k = category0_of en s \<and> \<not> list_ex (\<lambda>k. lower k = lower (category0_of en s)) ?ks"
    then have "lower ?k \<notin> set (map lower ?ks)" by (auto simp: list_ex_iff)
    with assms show ?thesis
      by (auto simp: add_event_in_dict[OF True] dict_add_keys simp del: map_map)
  next
    assume "?k \<in> set ?ks \<and> lower ?k = lower (category0_of en s)"
    with assms show ?thesis
      by (auto simp: add_event_in_dict[OF True] dict_add_keys simp del: map_map)
  qed
qed

lemma distinct_lower_insert_all:
  "distinct (map lower (map fst (event_dict st))) \<Longrightarrow>
   distinct (map lower (map fst (event_dict (insert_all en cs st))))"
  by (induction en cs st rule: insert_all.induct) (auto simp: distinct_lower_add_event simp del: map_map)

lemma exact_imp_relaxed:
  "dt_eq (astimezone_utc i) (astimezone_utc r) \<Longrightarrow>
   date_of (astimezone_utc i) = date_of (astimezone_utc r)"
  by (simp add: dt_eq_def astimezone_utc_def date_of_def)

lemma exact_match_candidate:
  "exact_match i e \<Longrightarrow> UID e = UID component \<Longrightarrow> candidate component i e"
  by (auto simp: exact_match_def candidate_def same_utc_date_def exact_imp_relaxed
      split: option.splits)

lemma take_override_Inr:
  assumes "take_override en component e st = Inr st'"
  shows "\<exists>s. DTSTART e = DateTime s \<and>
     st' = (add_event en st s (dt_sub (DTEND e) s) (override_summary component e))
             \<lparr>recurrence_list := remove1 e (recurrence_list st),
              calls := calls st @
                [\<lparr>c_dtstart = s, c_duration = dt_sub (DTEND e) s,
                  c_summary = override_summary component e, c_override = Some e\<rparr>]\<rparr>"
  using assms
  by (auto simp: take_override_def Let_def override_summary_def add_event_other
      split: dtval.splits)

lemma scan_overrides_Inr:
  "scan_overrides en component dtstart i es st = Inr (found, st') \<Longrightarrow>
   (case find (candidate component i) es of
      None \<Rightarrow> \<not> found \<and> st' = st
    | Some e \<Rightarrow> found \<and>
        take_override en component e
          (st\<lparr>log_info := log_info st @ [debug_info component dtstart]\<rparr>) = Inr st')"
proof (induction es)
  case Nil
  then show ?case by simp
next
  case (Cons e es)
  show ?case
  proof (cases "candidate component i e")
    case True
    with Cons.prems show ?thesis
      by (auto simp: candidate_def same_utc_date_def Let_def
          split: option.splits sum.splits)
  next
    case False
    with Cons.prems have "scan_overrides en component dtstart i es st = Inr (found, st')"
      by (auto simp: candidate_def same_utc_date_def Let_def exact_imp_relaxed
          split: option.splits sum.splits if_splits)
    from Cons.IH[OF this] False show ?thesis by simp
  qed
qed

lemma process_instant_Inr:
  assumes "process_instant en component dtstart i st = Inr st'"
  shows "(case find (candidate component i) (recurrence_list st) of
      None \<Rightarrow>
        st' = (add_event en st i (dt_sub (DTEND component) dtstart)
                 (str_summary (SUMMARY component)))
              \<lparr>calls := calls st @ [plain_call component dtstart i]\<rparr>
    | Some e \<Rightarrow>
        take_override en component e
          (st\<lparr>log_info := log_info st @ [debug_info component dtstart]\<rparr>) = Inr st')"
proof -
  from assms obtain found st1 where
    s: "scan_overrides en component dtstart i (recurrence_list st) st = Inr (found, st1)"
    by (auto simp: process_instant_def split: sum.splits)
  from scan_overrides_Inr[OF s] assms s show ?thesis
    by (auto simp: process_instant_def Let_def plain_call_def add_event_other
        split: option.splits if_splits)
qed

lemma consumed_append: "consumed (xs @ ys) = consumed xs @ consumed ys"
  by (induction xs) (auto split: option.splits)

lemma process_instant_step:
  assumes "process_instant en component dtstart i st = Inr st'"
  shows "\<exists>r. calls st' = calls st @ [r] \<and> resolved_ok component dtstart i r \<and>
           c_override r = find (candidate component i) (recurrence_list st) \<and>
           recurrence_list st' =
             (case c_override r of None \<Rightarrow> recurrence_list st
              | Some e \<Rightarrow> remove1 e (recurrence_list st)) \<and>
           log_info st' =
             (case c_override r of None \<Rightarrow> log_info st
              | Some e \<Rightarrow> log_info st @ [debug_info component dtstart])"
proof (cases "find (candidate component i) (recurrence_list st)")
  case None
  with process_instant_Inr[OF assms] show ?thesis
    by (simp add: add_event_other resolved_ok_def plain_call_def)
next
  case (Some e)
  with process_instant_Inr[OF assms]
  have t: "take_override en component e
          (st\<lparr>log_info := log_info st @ [debug_info component dtstart]\<rparr>) = Inr st'" by simp
  from find_Some_set[OF Some] have c: "candidate component i e" by simp
  from take_override_Inr[OF t] c Some show ?thesis
    by (auto simp: add_event_other resolved_ok_def)
qed

lemma process_instant_pool:
  assumes "process_instant en component dtstart i st = Inr st'"
  shows "mset (consumed (calls st')) + mset (recurrence_list st') =
         mset (consumed (calls st)) + mset (recurrence_list st)"
proof -
  from process_instant_step[OF assms] obtain r where
    r: "calls st' = calls st @ [r]"
       "c_override r = find (candidate component i) (recurrence_list st)"
       "recurrence_list st' =
             (case c_override r of None \<Rightarrow> recurrence_list st
              | Some e \<Rightarrow> remove1 e (recurrence_list st))"
    by blast
  show ?thesis
  proof (cases "c_override r")
    case None
    with r show ?thesis by (simp add: consumed_append)
  next
    case (Some e)
    with r(2) have f: "find (candidate component i) (recurrence_list st) = Some e" by simp
    from find_Some_set[OF f] have "e \<in> set (recurrence_list st)" by simp
    with r(1,3) Some show ?thesis by (simp add: consumed_append)
  qed
qed


lemma series_loop_pool:
  "series_loop en component dtstart gens st = Inr st' \<Longrightarrow>
   mset (consumed (calls st')) + mset (recurrence_list st') =
   mset (consumed (calls st)) + mset (recurrence_list st)"
proof (induction gens arbitrary: st)
  case Nil
  then show ?case by simp
next
  case (Cons i rest)
  from Cons.prems obtain st1 where
    p: "process_instant en component dtstart i st = Inr st1" and
    l: "series_loop en component dtstart rest st1 = Inr st'"
    by (auto split: sum.splits)
  from Cons.IH[OF l] process_instant_pool[OF p] show ?case by simp
qed

lemma process_component_pool:
  assumes "process_component en component st = Inr st'"
  shows "mset (consumed (calls st')) + mset (recurrence_list st') =
         mset (consumed (calls st)) + mset (recurrence_list st)"
  using assms
  by (auto simp: process_component_def Let_def add_event_other consumed_append expand_def
      split: option.splits dtval.splits sum.splits dest: series_loop_pool)

lemma main_loop_pool:
  "main_loop en cal st = Inr st' \<Longrightarrow>
   mset (consumed (calls st')) + mset (recurrence_list st') =
   mset (consumed (calls st)) + mset (recurrence_list st)"
proof (induction cal arbitrary: st)
  case Nil
  then show ?case by simp
next
  case (Cons c rest)
  from Cons.prems obtain st1 where
    p: "process_component en c st = Inr st1" and l: "main_loop en rest st1 = Inr st'"
    by (auto split: sum.splits)
  from Cons.IH[OF l] process_component_pool[OF p] show ?case by simp
qed

lemma agg_inv_other [simp]:
  "agg_inv (st\<lparr>recurrence_list := p\<rparr>) = agg_inv st"
  "agg_inv (st\<lparr>log_info := l\<rparr>) = agg_inv st"
  "agg_inv (st\<lparr>calls := c\<rparr>) = agg_inv st"
  by (simp_all add: agg_inv_def keys_ok_def counted_sum_def)

lemma agg_inv_add_event: "agg_inv st \<Longrightarrow> agg_inv (add_event en st d dur s)"
  using counted_sum_add_event[of st en d dur s] add_event_keys_ok[of st en d dur s]
  by (simp add: agg_inv_def)

lemma agg_inv_init: "agg_inv (init_state pool)"
  by (simp add: agg_inv_def keys_ok_init init_sums)

lemma process_instant_agg:
  assumes "process_instant en component dtstart i st = Inr st'" and "agg_inv st"
  shows "agg_inv st'"
proof (cases "find (candidate component i) (recurrence_list st)")
  case None
  with process_instant_Inr[OF assms(1)] assms(2) show ?thesis
    by (simp add: agg_inv_add_event)
next
  case (Some e)
  with process_instant_Inr[OF assms(1)]
  have "take_override en component e
          (st\<lparr>log_info := log_info st @ [debug_info component dtstart]\<rparr>) = Inr st'" by simp
  from take_override_Inr[OF this] assms(2) show ?thesis
    by (auto simp: agg_inv_add_event)
qed

lemma series_loop_agg:
  "series_loop en component dtstart gens st = Inr st' \<Longrightarrow> agg_inv st \<Longrightarrow> agg_inv st'"
proof (induction gens arbitrary: st)
  case Nil
  then show ?case by simp
next
  case (Cons i rest)
  from Cons.prems(1) obtain st1 where
    p: "process_instant en component dtstart i st = Inr st1" and
    l: "series_loop en component dtstart rest st1 = Inr st'"
    by (auto split: sum.splits)
  from Cons.IH[OF l process_instant_agg[OF p Cons.prems(2)]] show ?case .
qed

lemma process_component_agg:
  assumes "process_component en component st = Inr st'" and "agg_inv st"
  shows "agg_inv st'"
  using assms
  by (auto simp: process_component_def Let_def agg_inv_add_event expand_def
      split: option.splits dtval.splits sum.splits dest: series_loop_agg)

lemma main_loop_agg:
  "main_loop en cal st = Inr st' \<Longrightarrow> agg_inv st \<Longrightarrow> agg_inv st'"
proof (induction cal arbitrary: st)
  case Nil
  then show ?case by simp
next
  case (Cons c rest)
  from Cons.prems(1) obtain st1 where
    p: "process_component en c st = Inr st1" and l: "main_loop en rest st1 = Inr st'"
    by (auto split: sum.splits)
  from Cons.IH[OF l process_component_agg[OF p Cons.prems(2)]] show ?case .
qed

lemma run_agg: "run en calendar = Inr st \<Longrightarrow> total_duration st = counted_sum st"
  using main_loop_agg[OF _ agg_inv_init] by (auto simp: run_def agg_inv_def)

lemma main_loop_append:
  "main_loop en (xs @ ys) st =
     (case main_loop en xs st of Inl err \<Rightarrow> Inl err | Inr st1 \<Rightarrow> main_loop en ys st1)"
  by (induction xs arbitrary: st) (auto split: sum.splits)

lemma process_component_malformed:
  assumes "RECURRENCE_ID component = None" and "DTSTART component = DateTime d"
    and "RRULE component = Some rule" and "rrulestr en rule d = None"
  shows "process_component en component st = Inl ValueError"
  using assms by (simp add: process_component_def expand_def)

lemma rruleset_list_excluded:
  "x \<in> set exdates \<Longrightarrow> \<not> list_ex (\<lambda>g. dt_eq g x) (rruleset_list gen exdates)"
  by (auto simp: rruleset_list_def list_ex_iff)

lemma exdates_of_retag:
  "exdates_of (component\<lparr>EXDATE := map (\<lambda>e. replace_tzinfo e (f e)) (EXDATE component)\<rparr>) dtstart =
   exdates_of component dtstart"
  by (simp add: exdates_of_def replace_tzinfo_def)

lemma rruleset_list_exdates_of:
  "rruleset_list gen (exdates_of component dtstart) =
   filter (\<lambda>g. \<not> list_ex (\<lambda>e. dt_eq g (replace_tzinfo e (utcoff dtstart)))
                    (EXDATE component)) gen"
  by (simp add: rruleset_list_def exdates_of_def list_ex_iff)

lemma dt_eq_same_zone:
  "utcoff g = tz \<and> wall g = wall e \<Longrightarrow> dt_eq g (replace_tzinfo e tz)"
  by (simp add: dt_eq_def replace_tzinfo_def)







section \<open>The reconciler: which override an instant consumes\<close>

text \<open>
  C1, as the script has it. The scan for an instant is one pass over the pool in its
  order. It stops at the first override of the series' UID whose RECURRENCE-ID has the
  UTC date of the instant and consumes that one: an override that matches the instant
  exactly is such a candidate, but it has no priority over an earlier candidate that
  matches by date only. When the pool holds no candidate, nothing is consumed.
\<close>

theorem first_same_date_override_consumed:
  assumes "process_instant en component dtstart i st = Inr st'"
  shows "(case find (candidate component i) (recurrence_list st) of
            None \<Rightarrow> recurrence_list st' = recurrence_list st \<and>
                    consumed (calls st') = consumed (calls st)
          | Some e \<Rightarrow> recurrence_list st' = remove1 e (recurrence_list st) \<and>
                      consumed (calls st') = consumed (calls st) @ [e]) \<and>
         (\<forall>e. exact_match i e \<and> UID e = UID component \<longrightarrow> candidate component i e)"
proof -
  from process_instant_step[OF assms] obtain r where
    r: "calls st' = calls st @ [r]"
       "c_override r = find (candidate component i) (recurrence_list st)"
       "recurrence_list st' =
             (case c_override r of None \<Rightarrow> recurrence_list st
              | Some e \<Rightarrow> remove1 e (recurrence_list st))"
    by blast
  then have "(case find (candidate component i) (recurrence_list st) of
            None \<Rightarrow> recurrence_list st' = recurrence_list st \<and>
                    consumed (calls st') = consumed (calls st)
          | Some e \<Rightarrow> recurrence_list st' = remove1 e (recurrence_list st) \<and>
                      consumed (calls st') = consumed (calls st) @ [e])"
    by (cases "find (candidate component i) (recurrence_list st)")
       (simp_all add: consumed_append)
  then show ?thesis using exact_match_candidate by blast
qed

text \<open>
  The pool holds the override of the 10:00 meeting before the override of the 09:00
  meeting. For the instant 09:00 the scan stops at the first of the two, which has the
  date of the instant.
\<close>

theorem first_same_date_override_consumed_witness:
  "process_instant env_example series_hourly at_9 at_9 (init_state [ov_10, ov_9]) =
     Inr (projr (process_instant env_example series_hourly at_9 at_9
                   (init_state [ov_10, ov_9]))) \<and>
   find (candidate series_hourly at_9) (recurrence_list (init_state [ov_10, ov_9])) =
     Some ov_10 \<and>
   recurrence_list (projr (process_instant env_example series_hourly at_9 at_9
                             (init_state [ov_10, ov_9]))) =
     remove1 ov_10 (recurrence_list (init_state [ov_10, ov_9])) \<and>
   consumed (calls (projr (process_instant env_example series_hourly at_9 at_9
                             (init_state [ov_10, ov_9])))) =
     consumed (calls (init_state [ov_10, ov_9])) @ [ov_10]"
proof -
  have h: "process_instant env_example series_hourly at_9 at_9 (init_state [ov_10, ov_9]) =
     Inr (projr (process_instant env_example series_hourly at_9 at_9
                   (init_state [ov_10, ov_9])))"
    by code_simp
  have f: "find (candidate series_hourly at_9) (recurrence_list (init_state [ov_10, ov_9])) =
     Some ov_10"
    by code_simp
  from first_same_date_override_consumed[OF h] f h show ?thesis by simp
qed

text \<open>
  C1 as it is written fails there: the override of the 09:00 meeting matches the
  instant 09:00 exactly and is in the pool, and the override consumed is the other
  one, which matches by date only.
\<close>

theorem exact_override_passed_over:
  "exact_match at_9 ov_9 \<and> UID ov_9 = UID series_hourly \<and> \<not> exact_match at_9 ov_10 \<and>
   map_sum id recurrence_list
     (process_instant env_example series_hourly at_9 at_9 (init_state [ov_10, ov_9])) =
     Inr [ov_9] \<and>
   map_sum id (consumed \<circ> calls)
     (process_instant env_example series_hourly at_9 at_9 (init_state [ov_10, ov_9])) =
     Inr [ov_10]"
  by code_simp

section \<open>The reconciler: every override is consumed at most once\<close>

text \<open>
  C2. Over a whole run that ends normally, the overrides consumed, each counted as
  often as it was consumed, and the overrides left in the pool make up exactly the
  overrides of the calendar: no override stands behind two resolved occurrences, and
  each one consumed has left the pool once.
\<close>

theorem override_consumed_once:
  assumes "run en calendar = Inr st"
  shows "mset (consumed (calls st)) + mset (recurrence_list st) =
           mset (filter (\<lambda>component. RECURRENCE_ID component \<noteq> None) calendar) \<and>
         mset (consumed (calls st)) \<subseteq>#
           mset (filter (\<lambda>component. RECURRENCE_ID component \<noteq> None) calendar)"
proof -
  from assms have "main_loop en calendar
       (init_state (filter (\<lambda>component. RECURRENCE_ID component \<noteq> None) calendar)) = Inr st"
    by (simp add: run_def)
  from main_loop_pool[OF this]
  have e: "mset (consumed (calls st)) + mset (recurrence_list st) =
           mset (filter (\<lambda>component. RECURRENCE_ID component \<noteq> None) calendar)"
    by (simp add: init_state_def)
  then have "mset (consumed (calls st)) \<subseteq>#
           mset (filter (\<lambda>component. RECURRENCE_ID component \<noteq> None) calendar)"
    by (metis mset_subset_eq_add_left)
  with e show ?thesis by simp
qed

text \<open>The two overrides of the example are each consumed once, and the pool ends empty.\<close>

theorem override_consumed_once_witness:
  "run env_example [series_hourly, ov_10, ov_9] =
     Inr (projr (run env_example [series_hourly, ov_10, ov_9])) \<and>
   mset (consumed (calls (projr (run env_example [series_hourly, ov_10, ov_9])))) +
     mset (recurrence_list (projr (run env_example [series_hourly, ov_10, ov_9]))) =
     mset (filter (\<lambda>component. RECURRENCE_ID component \<noteq> None) [series_hourly, ov_10, ov_9]) \<and>
   consumed (calls (projr (run env_example [series_hourly, ov_10, ov_9]))) = [ov_10, ov_9] \<and>
   recurrence_list (projr (run env_example [series_hourly, ov_10, ov_9])) = []"
proof -
  have h: "run env_example [series_hourly, ov_10, ov_9] =
     Inr (projr (run env_example [series_hourly, ov_10, ov_9]))"
    by code_simp
  have c: "consumed (calls (projr (run env_example [series_hourly, ov_10, ov_9]))) =
     [ov_10, ov_9]"
    by code_simp
  have p: "recurrence_list (projr (run env_example [series_hourly, ov_10, ov_9])) = []"
    by code_simp
  from override_consumed_once[OF h] h c p show ?thesis by simp
qed

section \<open>A rule text that does not parse\<close>

text \<open>
  C3, as the script has it. The exception of \<^verbatim>\<open>rrulestr\<close> is caught nowhere. A
  calendar that holds a timed series whose rule text does not parse ends the run with
  an exception and without a report; when the components before that series are
  processed normally, the exception is the \<^verbatim>\<open>ValueError\<close> of that series, and no
  component after it is processed.
\<close>

theorem malformed_rule_aborts_run:
  assumes "component \<in> set calendar" and "RECURRENCE_ID component = None"
    and "DTSTART component = DateTime d" and "RRULE component = Some rule"
    and "rrulestr en rule d = None"
  shows "isl (run en calendar) \<and>
         (\<forall>pre post st st1. main_loop en pre st = Inr st1 \<longrightarrow>
            main_loop en (pre @ component # post) st = Inl ValueError)"
proof -
  have p: "process_component en component s = Inl ValueError" for s
    using process_component_malformed[OF assms(2-5)] .
  have a: "isl (main_loop en calendar s)" for s
  proof -
    from assms(1) obtain pre post where c: "calendar = pre @ component # post"
      by (meson split_list)
    show ?thesis unfolding c main_loop_append
      by (cases "main_loop en pre s") (simp_all add: p)
  qed
  have b: "main_loop en (pre @ component # post) s = Inl ValueError"
    if "main_loop en pre s = Inr s1" for pre post s s1
    using that by (simp add: main_loop_append p)
  from a b show ?thesis by (simp add: run_def)
qed

theorem malformed_rule_aborts_run_witness:
  "series_bad \<in> set [series_bad, series_hourly] \<and> RECURRENCE_ID series_bad = None \<and>
   DTSTART series_bad = DateTime at_9 \<and> RRULE series_bad = Some ''FREQ=DAILY;UNTIL=19700103T090000'' \<and>
   rrulestr env_example ''FREQ=DAILY;UNTIL=19700103T090000'' at_9 = None \<and>
   isl (run env_example [series_bad, series_hourly])"
proof -
  have h1: "series_bad \<in> set [series_bad, series_hourly]" by simp
  have h2: "RECURRENCE_ID series_bad = None" by (simp add: series_bad_def)
  have h3: "DTSTART series_bad = DateTime at_9" by (simp add: series_bad_def)
  have h4: "RRULE series_bad = Some ''FREQ=DAILY;UNTIL=19700103T090000''" by (simp add: series_bad_def)
  have h5: "rrulestr env_example ''FREQ=DAILY;UNTIL=19700103T090000'' at_9 = None"
    by (simp add: env_example_def rrulestr_example_def)
  from malformed_rule_aborts_run[OF h1 h2 h3 h4 h5] h1 h2 h3 h4 h5 show ?thesis by simp
qed

text \<open>
  C3 as it is written fails: with the series that does not parse in front, the run
  ends in \<^verbatim>\<open>ValueError\<close> and reports nothing, though the other series alone is
  reconciled and reported with a total of one hour.
\<close>

theorem malformed_rule_counterexample:
  "run env_example [series_bad, series_hourly] = Inl ValueError \<and>
   map_sum id total_duration (run env_example [series_hourly]) = Inr 3600"
  by code_simp

section \<open>Exclusion dates\<close>

text \<open>
  C4, as the script has it. Line 132 overwrites the zone of an exclusion date with the
  zone of the series start and keeps its wall clock; it does not convert the instant.
  The instants of a series are the timestamps of the rule without those equal to such
  a re-tagged exclusion date: no instant equals a re-tagged exclusion date, no instant
  in the zone of the series start has the wall clock of an exclusion date, and every
  other timestamp of the rule stays. The offsets the exclusion dates arrive with have
  no influence on the result.
\<close>

theorem exdate_wall_clock_removed:
  assumes "expand en component rule dtstart = Inr out"
  shows "(\<forall>e\<in>set (EXDATE component).
            \<not> list_ex (\<lambda>g. dt_eq g (replace_tzinfo e (utcoff dtstart))) out) \<and>
         (\<forall>e\<in>set (EXDATE component).
            \<not> list_ex (\<lambda>g. utcoff g = utcoff dtstart \<and> wall g = wall e) out) \<and>
         (\<forall>gen. rrulestr en rule dtstart = Some gen \<longrightarrow>
            out = filter (\<lambda>g. \<not> list_ex (\<lambda>e. dt_eq g (replace_tzinfo e (utcoff dtstart)))
                             (EXDATE component)) gen) \<and>
         (\<forall>f. expand en
                 (component\<lparr>EXDATE := map (\<lambda>e. replace_tzinfo e (f e)) (EXDATE component)\<rparr>)
                 rule dtstart = Inr out)"
proof -
  from assms obtain gen where g: "rrulestr en rule dtstart = Some gen"
    and o: "out = rruleset_list gen (exdates_of component dtstart)"
    by (auto simp: expand_def split: option.splits)
  have 1: "\<not> list_ex (\<lambda>g. dt_eq g (replace_tzinfo e (utcoff dtstart))) out"
    if "e \<in> set (EXDATE component)" for e
    unfolding o using that by (intro rruleset_list_excluded) (simp add: exdates_of_def)
  have 2: "\<not> list_ex (\<lambda>g. utcoff g = utcoff dtstart \<and> wall g = wall e) out"
    if "e \<in> set (EXDATE component)" for e
    using 1[OF that] dt_eq_same_zone[of _ "utcoff dtstart" e] by (auto simp: list_ex_iff)
  have 3: "out = filter (\<lambda>g. \<not> list_ex (\<lambda>e. dt_eq g (replace_tzinfo e (utcoff dtstart)))
                             (EXDATE component)) gen'"
    if "rrulestr en rule dtstart = Some gen'" for gen'
    using that g o by (simp add: rruleset_list_exdates_of)
  have 4: "expand en
                 (component\<lparr>EXDATE := map (\<lambda>e. replace_tzinfo e (f e)) (EXDATE component)\<rparr>)
                 rule dtstart = Inr out" for f
    using g o by (simp add: expand_def exdates_of_retag)
  from 1 2 3 4 show ?thesis by blast
qed

text \<open>The daily series of the example loses its second meeting.\<close>

theorem exdate_wall_clock_removed_witness:
  "expand env_example series_daily ''FREQ=DAILY;COUNT=3'' at_9 =
     Inr [at_9, at_9\<lparr>wall := wall at_9 + 172800\<rparr>] \<and>
   \<not> list_ex (\<lambda>g. dt_eq g (replace_tzinfo \<lparr>wall = 118800, utcoff = 3600\<rparr> (utcoff at_9)))
       [at_9, at_9\<lparr>wall := wall at_9 + 172800\<rparr>] \<and>
   \<not> list_ex (\<lambda>g. utcoff g = utcoff at_9 \<and> wall g = wall \<lparr>wall = 118800, utcoff = 3600\<rparr>)
       [at_9, at_9\<lparr>wall := wall at_9 + 172800\<rparr>]"
proof -
  have h: "expand env_example series_daily ''FREQ=DAILY;COUNT=3'' at_9 =
     Inr [at_9, at_9\<lparr>wall := wall at_9 + 172800\<rparr>]"
    by code_simp
  have e: "\<lparr>wall = 118800, utcoff = 3600\<rparr> \<in> set (EXDATE series_daily)"
    by (simp add: series_daily_def)
  from exdate_wall_clock_removed[OF h] e h show ?thesis by blast
qed

text \<open>
  C4 as it is written fails: the exclusion date 10:00 two hours east of UTC, re-tagged
  with the zone of the series, is the 10:00 meeting, a timestamp of the rule; the
  10:00 meeting is removed, and the 09:00 meeting, which is the instant of the
  exclusion date, stays in the output.
\<close>

theorem exdate_equal_instant_survives:
  "rrulestr env_example ''FREQ=HOURLY;COUNT=2'' at_9 = Some [at_9, at_10] \<and>
   dt_eq (replace_tzinfo exdate_east (utcoff at_9)) at_10 \<and>
   EXDATE series_hourly_excl = [exdate_east] \<and>
   expand env_example series_hourly_excl ''FREQ=HOURLY;COUNT=2'' at_9 = Inr [at_9] \<and>
   dt_eq at_9 exdate_east"
  by code_simp

text \<open>
  The zone of an exclusion date is overwritten, not converted: the exclusion date
  08:00 UTC is the instant of the second meeting, 09:00 one hour east of UTC, and the
  meeting stays.
\<close>

lemma exdate_same_instant_other_zone_kept:
  "dt_eq \<lparr>wall = 115200, utcoff = 0\<rparr> \<lparr>wall = 118800, utcoff = 3600\<rparr> \<and>
   expand env_example
     (series_daily\<lparr>EXDATE := [\<lparr>wall = 115200, utcoff = 0\<rparr>]\<rparr>) ''FREQ=DAILY;COUNT=3'' at_9 =
     Inr [at_9, at_9\<lparr>wall := wall at_9 + 86400\<rparr>, at_9\<lparr>wall := wall at_9 + 172800\<rparr>]"
  by code_simp

section \<open>One resolved occurrence for every instant\<close>



section \<open>The log line of a relaxed match\<close>

text \<open>
  C9. The line \<^verbatim>\<open>relaxed matching\<close> is meant for an override matched by its date
  only. The test of line 141 is an \<^verbatim>\<open>if\<close> of its own after the test of line 139,
  and two equal instants have equal dates: the override of the 09:00 meeting, consumed
  for the instant 09:00 that it matches exactly, writes the line all the same.
\<close>

theorem exact_match_logs_relaxed:
  "exact_match at_9 ov_9 \<and>
   map_sum id log_info
     (process_instant env_example series_hourly at_9 at_9 (init_state [ov_9])) =
     Inr [debug_info series_hourly at_9]"
  by code_simp

section \<open>The grand total\<close>

text \<open>
  C6. After any sequence of insertions into the empty aggregator, \<^verbatim>\<open>total_duration\<close>
  is the sum of the totals of all buckets but the uncategorized one; it is the sum of
  the durations of the insertions that were kept and matched the pattern, and the
  total of the uncategorized bucket is the sum of the durations of those that were
  kept and did not match. The same equation holds for the state a run ends with.
\<close>

theorem grand_total_excludes_uncategorized:
  "total_duration (insert_all en cs (init_state pool)) =
     counted_sum (insert_all en cs (init_state pool)) \<and>
   total_duration (insert_all en cs (init_state pool)) = matched_sum en cs \<and>
   bucket_total (insert_all en cs (init_state pool)) CATEGORY_IGNORED = unmatched_sum en cs \<and>
   (\<forall>st. run en calendar = Inr st \<longrightarrow> total_duration st = counted_sum st)"
  using insert_all_counted[OF keys_ok_init, of en cs pool]
    insert_all_total[of en cs "init_state pool"]
    insert_all_ignored[OF keys_ok_init, of en cs pool] run_agg[of en calendar]
  by (simp add: init_sums)

text \<open>
  Ninety minutes under \<^verbatim>\<open>[DEV]\<close>, an hour without category and two hours outside
  the window: the grand total is ninety minutes.
\<close>

theorem grand_total_excludes_uncategorized_witness:
  "total_duration (insert_all env_example insertions_example (init_state [])) =
     counted_sum (insert_all env_example insertions_example (init_state [])) \<and>
   total_duration (insert_all env_example insertions_example (init_state [])) = 5400 \<and>
   bucket_total (insert_all env_example insertions_example (init_state [])) CATEGORY_IGNORED =
     3600 \<and>
   run env_example [series_hourly] = Inr (projr (run env_example [series_hourly])) \<and>
   total_duration (projr (run env_example [series_hourly])) =
     counted_sum (projr (run env_example [series_hourly]))"
proof -
  have m: "matched_sum env_example insertions_example = 5400" by code_simp
  have u: "unmatched_sum env_example insertions_example = 3600" by code_simp
  have h: "run env_example [series_hourly] = Inr (projr (run env_example [series_hourly]))"
    by code_simp
  from grand_total_excludes_uncategorized[where en = env_example
      and cs = insertions_example and pool = "[]" and calendar = "[series_hourly]"] m u h
  show ?thesis by simp
qed

section \<open>The window\<close>

text \<open>
  C7. \<^verbatim>\<open>add_event\<close> keeps an occurrence, that is, it changes the state and stores
  one more event, if and only if the date of the start lies between \<^verbatim>\<open>args.dstart\<close>
  and \<^verbatim>\<open>args.dend\<close>, both included. The date is the date of the wall clock of the
  start in its own zone: the same wall clock in any other zone, which is another
  instant, is kept or dropped alike.
\<close>

theorem add_event_window:
  "(add_event en st d dur s \<noteq> st) = (dstart en \<le> date_of d \<and> date_of d \<le> dend en) \<and>
   count_events (add_event en st d dur s) =
     count_events st + (if dstart en \<le> date_of d \<and> date_of d \<le> dend en then 1 else 0) \<and>
   (add_event en st (replace_tzinfo d z) dur s \<noteq> st) = (add_event en st d dur s \<noteq> st)"
  using add_event_kept[of en st d dur s] add_event_kept[of en st "replace_tzinfo d z" dur s]
  by (simp add: in_window_def date_of_def replace_tzinfo_def)

text \<open>
  An occurrence at 01:00 on the first day of the window, two hours east of UTC, is
  kept although its UTC date is the day before the window.
\<close>

theorem add_event_window_witness:
  "date_of (astimezone_utc early) < dstart env_example \<and>
   dstart env_example \<le> date_of early \<and> date_of early \<le> dend env_example \<and>
   add_event env_example (init_state []) early 1800 ''[DEV] call'' \<noteq> init_state [] \<and>
   count_events (add_event env_example (init_state []) early 1800 ''[DEV] call'') =
     count_events (init_state []) + 1"
proof -
  have a: "date_of (astimezone_utc early) < dstart env_example"
    by (simp add: date_of_def astimezone_utc_def early_def env_example_def)
  have b: "dstart env_example \<le> date_of early \<and> date_of early \<le> dend env_example"
    by (simp add: date_of_def early_def env_example_def)
  from add_event_window[where en = env_example and st = "init_state []" and d = early
      and dur = 1800 and s = "''[DEV] call''"] a b
  show ?thesis by simp
qed

section \<open>Case-insensitive buckets\<close>

text \<open>
  C8. After any sequence of insertions no two keys of \<^verbatim>\<open>event_dict\<close> are equal up to
  case. An insertion inside the window whose category equals a key up to case leaves
  the keys as they are and adds its duration to the bucket of that key, the casing
  seen first; otherwise its category becomes a new key, inserted last.
\<close>

theorem case_insensitive_buckets:
  "distinct (map lower (map fst (event_dict (insert_all en cs (init_state pool))))) \<and>
   (dstart en \<le> date_of d \<and> date_of d \<le> dend en \<longrightarrow>
     (case find (\<lambda>k. lower k = lower (category0_of en s)) (map fst (event_dict st)) of
        Some k \<Rightarrow>
          map fst (event_dict (add_event en st d dur s)) = map fst (event_dict st) \<and>
          bucket_total (add_event en st d dur s) k = bucket_total st k + dur
      | None \<Rightarrow>
          map fst (event_dict (add_event en st d dur s)) =
            map fst (event_dict st) @ [category0_of en s] \<and>
          bucket_total (add_event en st d dur s) (category0_of en s) = dur))"
proof -
  have "distinct (map lower (map fst (event_dict (init_state pool))))"
    by (simp add: init_state_def)
  then have A: "distinct (map lower (map fst (event_dict (insert_all en cs (init_state pool)))))"
    by (rule distinct_lower_insert_all)
  have B: "(case find (\<lambda>k. lower k = lower (category0_of en s)) (map fst (event_dict st)) of
        Some k \<Rightarrow>
          map fst (event_dict (add_event en st d dur s)) = map fst (event_dict st) \<and>
          bucket_total (add_event en st d dur s) k = bucket_total st k + dur
      | None \<Rightarrow>
          map fst (event_dict (add_event en st d dur s)) =
            map fst (event_dict st) @ [category0_of en s] \<and>
          bucket_total (add_event en st d dur s) (category0_of en s) = dur)"
    if w: "in_window en d"
  proof (cases "find (\<lambda>k. lower k = lower (category0_of en s)) (map fst (event_dict st))")
    case None
    then have nin: "category0_of en s \<notin> fst ` set (event_dict st)"
      by (auto simp: find_None_iff)
    then have "map_of (event_dict st) (category0_of en s) = None"
      by (simp add: map_of_eq_None_iff)
    with None nin show ?thesis
      by (simp add: add_event_in_dict[OF w] fold_case_find dict_add_keys bucket_total_def
          dict_add_map_of)
  next
    case (Some k)
    from find_Some_set[OF Some] have kin: "k \<in> fst ` set (event_dict st)" by auto
    then obtain b where "map_of (event_dict st) k = Some b"
      by (cases "map_of (event_dict st) k") (auto simp: map_of_eq_None_iff)
    with Some kin show ?thesis
      by (simp add: add_event_in_dict[OF w] fold_case_find dict_add_keys bucket_total_def
          dict_add_map_of split: prod.splits)
  qed
  from A B show ?thesis by (simp add: in_window_def)
qed

text \<open>\<^verbatim>\<open>[Work]\<close> and then \<^verbatim>\<open>[WORK]\<close>: one bucket, keyed \<^verbatim>\<open>Work\<close>, with both durations.\<close>

theorem case_insensitive_buckets_witness:
  "dstart env_example \<le> date_of at_14 \<and> date_of at_14 \<le> dend env_example \<and>
   find (\<lambda>k. lower k = lower (category0_of env_example ''[WORK] b''))
     (map fst (event_dict (add_event env_example (init_state []) at_9 3600 ''[Work] a''))) =
     Some ''Work'' \<and>
   map fst (event_dict (add_event env_example
       (add_event env_example (init_state []) at_9 3600 ''[Work] a'') at_14 1800 ''[WORK] b'')) =
     [''Work''] \<and>
   bucket_total (add_event env_example
       (add_event env_example (init_state []) at_9 3600 ''[Work] a'') at_14 1800 ''[WORK] b'')
     ''Work'' = 5400 \<and>
   distinct (map lower (map fst (event_dict (insert_all env_example
       [(at_9, 3600, ''[Work] a''), (at_14, 1800, ''[WORK] b'')] (init_state [])))))"
proof -
  have w: "dstart env_example \<le> date_of at_14 \<and> date_of at_14 \<le> dend env_example"
    by (simp add: date_of_def at_14_def env_example_def)
  have f: "find (\<lambda>k. lower k = lower (category0_of env_example ''[WORK] b''))
     (map fst (event_dict (add_event env_example (init_state []) at_9 3600 ''[Work] a''))) =
     Some ''Work''"
    by code_simp
  have k: "map fst (event_dict (add_event env_example (init_state []) at_9 3600 ''[Work] a''))
     = [''Work'']"
    by code_simp
  have b: "bucket_total (add_event env_example (init_state []) at_9 3600 ''[Work] a'') ''Work''
     = 3600"
    by code_simp
  from case_insensitive_buckets[where en = env_example
      and cs = "[(at_9, 3600, ''[Work] a''), (at_14, 1800, ''[WORK] b'')]" and pool = "[]"
      and d = at_14 and s = "''[WORK] b''" and dur = 1800
      and st = "add_event env_example (init_state []) at_9 3600 ''[Work] a''"] w f k b
  show ?thesis by simp
qed

section \<open>A match without letters or digits\<close>

text \<open>
  C10. An occurrence inside the window whose title matches the pattern with a match
  that holds no letter and no digit goes to the bucket of the empty key. The empty key
  is not the uncategorized key, the bucket of the uncategorized key is untouched, and
  the duration is added to \<^verbatim>\<open>total_duration\<close>.
\<close>

theorem empty_category_counted:
  assumes "category_pattern en (take 200 s) = Some m" and "filter isalnum m = []"
    and "dstart en \<le> date_of d" and "date_of d \<le> dend en"
  shows "[] \<in> set (map fst (event_dict (add_event en st d dur s))) \<and>
         bucket_total (add_event en st d dur s) [] = bucket_total st [] + dur \<and>
         total_duration (add_event en st d dur s) = total_duration st + dur \<and>
         [] \<noteq> CATEGORY_IGNORED \<and>
         bucket_total (add_event en st d dur s) CATEGORY_IGNORED =
           bucket_total st CATEGORY_IGNORED"
proof -
  have w: "in_window en d" using assms by (simp add: in_window_def)
  have c0: "category0_of en s = []" using assms by (simp add: category0_of_def)
  have "lower (fold_case ks []) = []" for ks
    using fold_case_cases[of ks "[]"] by (auto simp: lower_def)
  then have k: "fold_case ks [] = []" for ks by (simp add: lower_def)
  have ne: "[] \<noteq> CATEGORY_IGNORED" by (simp add: CATEGORY_IGNORED_def)
  show ?thesis using assms(1) ne
    by (auto simp: add_event_in_dict[OF w] add_event_in_total[OF w] c0 k bucket_total_def
        dict_add_map_of dict_add_keys split: option.splits)
qed

text \<open>The title \<^verbatim>\<open>[] standup\<close> under the default pattern.\<close>

theorem empty_category_counted_witness:
  "category_pattern env_example (take 200 ''[] standup'') = Some ''[]'' \<and>
   filter isalnum ''[]'' = [] \<and>
   dstart env_example \<le> date_of at_9 \<and> date_of at_9 \<le> dend env_example \<and>
   event_dict (add_event env_example (init_state []) at_9 3600 ''[] standup'') =
     [([], 3600, [\<lparr>ev_dtstart = at_9, ev_duration = 3600, ev_summary = ''[] standup'',
                    ev_category = []\<rparr>])] \<and>
   total_duration (add_event env_example (init_state []) at_9 3600 ''[] standup'') = 3600 \<and>
   [] \<noteq> CATEGORY_IGNORED"
proof -
  have h1: "category_pattern env_example (take 200 ''[] standup'') = Some ''[]''"
    by code_simp
  have h2: "filter isalnum ''[]'' = []" by code_simp
  have h3: "dstart env_example \<le> date_of at_9"
    by (simp add: env_example_def date_of_def at_9_def)
  have h4: "date_of at_9 \<le> dend env_example"
    by (simp add: env_example_def date_of_def at_9_def)
  have e: "event_dict (add_event env_example (init_state []) at_9 3600 ''[] standup'') =
     [([], 3600, [\<lparr>ev_dtstart = at_9, ev_duration = 3600, ev_summary = ''[] standup'',
                    ev_category = []\<rparr>])]"
    by code_simp
  from empty_category_counted[OF h1 h2 h3 h4, of "init_state []" 3600]
  have "total_duration (add_event env_example (init_state []) at_9 3600 ''[] standup'') = 3600 \<and>
        [] \<noteq> CATEGORY_IGNORED" by (simp add: init_state_def)
  with h1 h2 h3 h4 e show ?thesis by simp
qed

end
